theory Spec2Isabelle
  imports Main "HOL-Library.AList"
begin

section \<open>Server-sent events: the shared event history and the stream session\<close>

text \<open>
  The module keeps two globals, \<^verbatim>\<open>event_history\<close> (a list of event dicts) and
  \<^verbatim>\<open>event_id_counter\<close> (an int), shared by every running \<^verbatim>\<open>event_generator\<close>.
  An event dict always has the three keys \<^verbatim>\<open>id\<close>, \<^verbatim>\<open>type\<close> and \<^verbatim>\<open>data\<close>, so it is a
  record here. The data of an event is a small dict of strings and ints, kept as an
  association list in insertion order.
\<close>

datatype jvalue = JStr string | JInt int

type_synonym jdict = "(string \<times> jvalue) list"

record event =
  ev_id :: int
  ev_type :: string
  ev_data :: jdict

record sse_state =
  event_history :: "event list"
  event_id_counter :: int

definition init_state :: sse_state where
  "init_state = \<lparr>event_history = [], event_id_counter = 0\<rparr>"

text \<open>
  What the generator yields. Each constructor stands for one of the four f-strings of
  the source: \<^verbatim>\<open>id: {id}\n\<close>, \<^verbatim>\<open>event: {type}\n\<close>, \<^verbatim>\<open>data: {json.dumps(data)}\n\n\<close> and the
  comment line \<^verbatim>\<open>: heartbeat\n\n\<close>.
\<close>

datatype frame = IdLine int | EventLine string | DataLine jdict | CommentLine string

subsection \<open>Python's \<^verbatim>\<open>str(int)\<close> and \<^verbatim>\<open>int(str)\<close>\<close>

definition digit_char :: "nat \<Rightarrow> char" where
  "digit_char d = char_of (48 + d)"

function digits_of_nat :: "nat \<Rightarrow> string" where
  "digits_of_nat n =
     (if n < 10 then [digit_char n] else digits_of_nat (n div 10) @ [digit_char (n mod 10)])"
  by pat_completeness auto
termination
  by (relation "measure (\<lambda>n. n)") auto

definition str_int :: "int \<Rightarrow> string" where
  "str_int i = (if i < 0 then CHR ''-'' # digits_of_nat (nat (- i)) else digits_of_nat (nat i))"

text \<open>
  \<^verbatim>\<open>int(s)\<close> on a string: surrounding whitespace is stripped, one sign is allowed, then
  decimal digits follow, with single underscores allowed between two digits. Anything
  else raises \<^verbatim>\<open>ValueError\<close>, which is \<open>None\<close> here. A character is a code point below
  256, which is what a header value holds. Of these, \<^verbatim>\<open>int\<close> strips the code points 9 to
  13, 32, 133 and 160 (not 28 to 31, which \<^verbatim>\<open>str.isspace\<close> accepts). More than 4300
  digits, the interpreter's default limit, raise \<^verbatim>\<open>ValueError\<close> as well; underscores,
  the sign and the whitespace do not count.
\<close>

definition is_space :: "char \<Rightarrow> bool" where
  "is_space c = ((of_char c :: nat) \<in> {9, 10, 11, 12, 13, 32, 133, 160})"

definition max_str_digits :: nat where
  "max_str_digits = 4300"

definition is_digit :: "char \<Rightarrow> bool" where
  "is_digit c = (48 \<le> (of_char c :: nat) \<and> (of_char c :: nat) \<le> 57)"

definition digit_val :: "char \<Rightarrow> int" where
  "digit_val c = int (of_char c) - 48"

definition strip :: "string \<Rightarrow> string" where
  "strip s = rev (dropWhile is_space (rev (dropWhile is_space s)))"

fun scan_digits :: "int \<Rightarrow> string \<Rightarrow> int option" where
  "scan_digits acc [] = Some acc"
| "scan_digits acc [c] = (if is_digit c then Some (acc * 10 + digit_val c) else None)"
| "scan_digits acc (c # d # ds) =
     (if is_digit c then scan_digits (acc * 10 + digit_val c) (d # ds)
      else if c = CHR ''_'' \<and> is_digit d then scan_digits (acc * 10 + digit_val d) ds
      else None)"

definition parse_unsigned :: "string \<Rightarrow> int option" where
  "parse_unsigned s =
     (case s of [] \<Rightarrow> None
      | c # cs \<Rightarrow>
          if max_str_digits < length (filter is_digit s) then None
          else if is_digit c then scan_digits (digit_val c) cs
          else None)"

definition py_int :: "string \<Rightarrow> int option" where
  "py_int s =
     (case strip s of [] \<Rightarrow> None
      | c # cs \<Rightarrow>
          if c = CHR ''-'' then map_option uminus (parse_unsigned cs)
          else if c = CHR ''+'' then parse_unsigned cs
          else parse_unsigned (c # cs))"

subsection \<open>\<^verbatim>\<open>event_generator\<close>\<close>

text \<open>Line 42: \<^verbatim>\<open>[e for e in event_history if e['id'] > last_id]\<close>.\<close>

definition since :: "int \<Rightarrow> event list \<Rightarrow> event list" where
  "since last_id h = filter (\<lambda>e. ev_id e > last_id) h"

text \<open>Lines 45 to 47: the three frames of a replayed event.\<close>

definition event_frames :: "event \<Rightarrow> frame list" where
  "event_frames e = [IdLine (ev_id e), EventLine (ev_type e), DataLine (ev_data e)]"

text \<open>
  Lines 39 to 49. The cursor is \<open>None\<close> when the header is absent; an empty string is
  falsy as well. \<^verbatim>\<open>int\<close> raises before anything is yielded, and the handler passes. The
  globals are only read, so the state comes back as it was.
\<close>

definition replay :: "string option \<Rightarrow> sse_state \<Rightarrow> frame list \<times> sse_state" where
  "replay last_event_id st =
     (case last_event_id of
        None \<Rightarrow> ([], st)
      | Some s \<Rightarrow>
          if s = [] then ([], st)
          else (case py_int s of
                  None \<Rightarrow> ([], st)
                | Some last_id \<Rightarrow>
                    (concat (map event_frames (since last_id (event_history st))), st)))"

text \<open>Lines 52 to 55: the connected event takes the next id and is not stored.\<close>

definition connected :: "sse_state \<Rightarrow> frame list \<times> sse_state" where
  "connected st =
     (let c = event_id_counter st + 1
      in ([IdLine c, EventLine ''connected'',
           DataLine [(''message'', JStr ''Connected to SSE stream'')]],
          st\<lparr>event_id_counter := c\<rparr>))"

text \<open>
  Lines 64 to 85, one pass of the loop after the sleep. The clock reading \<open>ts\<close> and
  the random value \<open>v\<close> come from outside. Nothing awaits between the increment of the
  counter and the evaluation of the first yielded string, so this runs undisturbed by
  other sessions.
\<close>

definition update_data :: "string \<Rightarrow> int \<Rightarrow> int \<Rightarrow> jdict" where
  "update_data ts v c =
     [(''timestamp'', JStr ts), (''value'', JInt v), (''message'', JStr (''Update #'' @ str_int c))]"

definition update_event :: "string \<Rightarrow> int \<Rightarrow> int \<Rightarrow> event" where
  "update_event ts v c = \<lparr>ev_id = c, ev_type = ''update'', ev_data = update_data ts v c\<rparr>"

definition generate :: "string \<Rightarrow> int \<Rightarrow> sse_state \<Rightarrow> frame list \<times> sse_state" where
  "generate ts v st =
     (let c = event_id_counter st + 1;
          h = event_history st @ [update_event ts v c];
          h' = (if length h > 100 then tl h else h)
      in ([IdLine c, EventLine ''update'', DataLine (update_data ts v c)],
          \<lparr>event_history = h', event_id_counter = c\<rparr>))"

text \<open>
  Sessions share the two globals. Whatever the interleaving, the globals change only by
  a session emitting its connected event (lines 52 to 55) or appending in a pass of its
  loop (lines 64 to 80). The lists of such actions cover every interleaving of sessions
  (and some that no sessions give, since the first action of a session is always its
  connected event).
\<close>

datatype action = Open | Tick string int

fun act :: "action \<Rightarrow> sse_state \<Rightarrow> sse_state" where
  "act Open st = snd (connected st)"
| "act (Tick ts v) st = snd (generate ts v st)"

fun run :: "action list \<Rightarrow> sse_state \<Rightarrow> sse_state" where
  "run [] st = st"
| "run (a # as) st = run as (act a st)"

text \<open>
  Lines 88 and 89. The test reads the global counter again, after the three yields of
  the update event.
\<close>

definition heartbeat :: "sse_state \<Rightarrow> frame list" where
  "heartbeat st = (if event_id_counter st mod 15 = 0 then [CommentLine ''heartbeat''] else [])"

text \<open>
  Lines 64 to 89, one pass of the loop. At each of the three yields of its update event
  the session is suspended, and other sessions may act on the globals before the test
  of line 88 runs: \<open>between\<close> is what they do. The test reads the counter as they left
  it.
\<close>

definition loop_pass ::
  "string \<Rightarrow> int \<Rightarrow> action list \<Rightarrow> sse_state \<Rightarrow> frame list \<times> sse_state" where
  "loop_pass ts v between st =
     (let (fs, st1) = generate ts v st;
          st2 = run between st1
      in (fs @ heartbeat st2, st2))"

text \<open>A pass during whose yields no other session acts.\<close>

definition tick :: "string \<Rightarrow> int \<Rightarrow> sse_state \<Rightarrow> frame list \<times> sse_state" where
  "tick ts v st = loop_pass ts v [] st"

text \<open>
  The \<^verbatim>\<open>while True\<close> loop runs until the task is cancelled in its sleep. A run of the
  loop is given by the clock and random readings of the passes it completed. Other
  sessions act between these passes, while this one sleeps.
\<close>

fun live :: "(string \<times> int) list \<Rightarrow> sse_state \<Rightarrow> frame list \<times> sse_state" where
  "live [] st = ([], st)"
| "live ((ts, v) # rest) st =
     (let (fs, st1) = tick ts v st;
          (gs, st2) = live rest st1
      in (fs @ gs, st2))"

definition event_generator ::
  "string option \<Rightarrow> (string \<times> int) list \<Rightarrow> sse_state \<Rightarrow> frame list \<times> sse_state" where
  "event_generator last_event_id inputs st =
     (let (rs, st0) = replay last_event_id st;
          (cs, st1) = connected st0;
          (ls, st2) = live inputs st1
      in (rs @ cs @ ls, st2))"

text \<open>The passes of one session's loop, as actions on the globals.\<close>

definition ticks :: "(string \<times> int) list \<Rightarrow> action list" where
  "ticks inputs = map (\<lambda>(ts, v). Tick ts v) inputs"

text \<open>The events appended by a run, in the order of their appends.\<close>

fun appended :: "action list \<Rightarrow> sse_state \<Rightarrow> event list" where
  "appended [] st = []"
| "appended (Open # as) st = appended as (act Open st)"
| "appended (Tick ts v # as) st =
     update_event ts v (event_id_counter st + 1) # appended as (act (Tick ts v) st)"

fun frame_ids :: "frame list \<Rightarrow> int list" where
  "frame_ids [] = []"
| "frame_ids (IdLine i # fs) = i # frame_ids fs"
| "frame_ids (f # fs) = frame_ids fs"

text \<open>Each yielded id line with the event line that follows it.\<close>

fun id_events :: "frame list \<Rightarrow> (int \<times> string) list" where
  "id_events (IdLine i # EventLine t # fs) = (i, t) # id_events fs"
| "id_events (f # fs) = id_events fs"
| "id_events [] = []"

text \<open>
  The number of update events a session has yielded before each of its comment frames.
\<close>

fun keepalive_positions :: "nat \<Rightarrow> frame list \<Rightarrow> nat list" where
  "keepalive_positions n [] = []"
| "keepalive_positions n (EventLine t # fs) =
     keepalive_positions (if t = ''update'' then Suc n else n) fs"
| "keepalive_positions n (CommentLine c # fs) = n # keepalive_positions n fs"
| "keepalive_positions n (f # fs) = keepalive_positions n fs"

text \<open>What every reachable state of the two globals satisfies.\<close>

definition log_inv :: "sse_state \<Rightarrow> bool" where
  "log_inv st \<longleftrightarrow>
     sorted_wrt (<) (map ev_id (event_history st)) \<and>
     (\<forall>e \<in> set (event_history st). ev_id e \<le> event_id_counter st) \<and>
     length (event_history st) \<le> 100"

text \<open>
  Scenario C: the globals after a session has run alone from the initial state for 100
  passes. The history holds 100 events, with the ids 2 to 101.
\<close>

definition scenario_c_state :: sse_state where
  "scenario_c_state = snd (event_generator None (replicate 100 (''t'', 0)) init_state)"

section \<open>WebSocket: the connection manager\<close>

text \<open>
  A \<^verbatim>\<open>WebSocket\<close> is a transport handle. \<^verbatim>\<open>send_json\<close> either hands the message to the
  peer or raises, when the peer is gone. The handle records what was handed over.
\<close>

datatype exn = SendError | RuntimeError

record websocket =
  ws_open :: bool
  ws_sent :: "jdict list"

definition delivered :: "jdict \<Rightarrow> websocket \<Rightarrow> websocket" where
  "delivered message ws = ws\<lparr>ws_sent := ws_sent ws @ [message]\<rparr>"

definition send_json :: "websocket \<Rightarrow> jdict \<Rightarrow> exn + websocket" where
  "send_json ws message = (if ws_open ws then Inr (delivered message ws) else Inl SendError)"

text \<open>
  \<^verbatim>\<open>ConnectionManager\<close>: \<^verbatim>\<open>active_connections\<close> is a dict from client id to handle, an
  association list in insertion order with distinct keys; \<^verbatim>\<open>rooms\<close> is a dict from room
  name to a set of client ids, each set a list without repetition in the order the
  interpreter iterates it.
\<close>

record manager =
  active_connections :: "(string \<times> websocket) list"
  rooms :: "(string \<times> string list) list"

text \<open>\<^verbatim>\<open>connect\<close>: the fresh \<^verbatim>\<open>uuid4\<close> string is an input.\<close>

definition connect :: "string \<Rightarrow> websocket \<Rightarrow> manager \<Rightarrow> string \<times> manager" where
  "connect client_id websocket mgr =
     (client_id,
      mgr\<lparr>active_connections := AList.update client_id websocket (active_connections mgr)\<rparr>)"

definition disconnect :: "string \<Rightarrow> manager \<Rightarrow> manager" where
  "disconnect client_id mgr =
     mgr\<lparr>active_connections :=
           (if client_id \<in> set (map fst (active_connections mgr))
            then AList.delete client_id (active_connections mgr)
            else active_connections mgr),
         rooms := map (\<lambda>(r, members). (r, removeAll client_id members)) (rooms mgr)\<rparr>"

text \<open>
  \<^verbatim>\<open>send_personal_message\<close> has no handler around \<^verbatim>\<open>send_json\<close>: what the transport raises
  leaves the method (\<open>Inl\<close>); otherwise the method returns \<^verbatim>\<open>None\<close> (\<open>Inr ()\<close>).
\<close>

definition send_personal_message :: "jdict \<Rightarrow> string \<Rightarrow> manager \<Rightarrow> (exn + unit) \<times> manager" where
  "send_personal_message message client_id mgr =
     (case map_of (active_connections mgr) client_id of
        None \<Rightarrow> (Inr (), mgr)
      | Some ws \<Rightarrow>
          (case send_json ws message of
             Inl e \<Rightarrow> (Inl e, mgr)
           | Inr ws' \<Rightarrow>
               (Inr (),
                mgr\<lparr>active_connections := AList.update client_id ws' (active_connections mgr)\<rparr>)))"

text \<open>
  While a task awaits a send, other tasks run. What one of them does to the registry in
  the meantime: nothing, \<^verbatim>\<open>connect\<close> for a new client, or \<^verbatim>\<open>disconnect\<close> for one that left.
  One such action per awaited send is covered; several within one send are not.
\<close>

datatype other = Quiet | Connects string websocket | Disconnects string

fun interfere :: "other \<Rightarrow> manager \<Rightarrow> manager" where
  "interfere Quiet mgr = mgr"
| "interfere (Connects client_id ws) mgr = snd (connect client_id ws mgr)"
| "interfere (Disconnects client_id) mgr = disconnect client_id mgr"

text \<open>
  \<^verbatim>\<open>broadcast\<close>, first loop (lines 56 to 63). The loop iterates the items of the live
  dict, not a copy: \<open>n\<close> is the size of the dict when the iteration began and \<open>i\<close> the
  position reached. Each step of the iterator first compares the size of the dict with
  \<open>n\<close> and raises \<^verbatim>\<open>RuntimeError\<close> when they differ, also after the last item; this
  happens outside the \<^verbatim>\<open>try\<close>, so the exception leaves \<^verbatim>\<open>broadcast\<close>. The excluded id
  is skipped without a send. Every exception of \<^verbatim>\<open>send_json\<close> is caught and the id
  noted. The schedule \<open>sched\<close> gives, for each awaited send in turn, what another task
  does meanwhile (nothing, once the schedule is used up). The result is the exception
  or the list \<^verbatim>\<open>disconnected\<close>, and the manager as the loop left it.
\<close>

function broadcast_loop ::
  "jdict \<Rightarrow> string option \<Rightarrow> nat \<Rightarrow> nat \<Rightarrow> other list \<Rightarrow> manager \<Rightarrow>
   (exn + string list) \<times> manager" where
  "broadcast_loop message exclude n i sched mgr =
     (if length (active_connections mgr) \<noteq> n then (Inl RuntimeError, mgr)
      else if n \<le> i then (Inr [], mgr)
      else
        (let (client_id, connection) = active_connections mgr ! i
         in if Some client_id = exclude
            then broadcast_loop message exclude n (Suc i) sched mgr
            else
              (let failed = (case send_json connection message of
                               Inl e \<Rightarrow> True
                             | Inr connection' \<Rightarrow> False);
                   mgr1 = (case send_json connection message of
                             Inl e \<Rightarrow> mgr
                           | Inr connection' \<Rightarrow>
                               mgr\<lparr>active_connections :=
                                     (active_connections mgr)[i := (client_id, connection')]\<rparr>);
                   mgr2 = interfere (case sched of [] \<Rightarrow> Quiet | other # rest \<Rightarrow> other) mgr1;
                   (r, mgr3) = broadcast_loop message exclude n (Suc i) (tl sched) mgr2
               in (case r of
                     Inl e \<Rightarrow> (Inl e, mgr3)
                   | Inr disconnected \<Rightarrow>
                       (Inr (if failed then client_id # disconnected else disconnected),
                        mgr3)))))"
  by pat_completeness auto
termination
  by (relation "measure (\<lambda>(message, exclude, n, i, sched, mgr). n - i)") auto

declare broadcast_loop.simps [simp del]

text \<open>
  \<^verbatim>\<open>broadcast\<close>: the first loop, and when it has not raised, the second (lines 66 and
  67), which awaits nothing: \<^verbatim>\<open>disconnect\<close> for each noted id.
\<close>

definition broadcast ::
  "jdict \<Rightarrow> string option \<Rightarrow> other list \<Rightarrow> manager \<Rightarrow> (exn + unit) \<times> manager" where
  "broadcast message exclude sched mgr =
     (case broadcast_loop message exclude (length (active_connections mgr)) 0 sched mgr of
        (Inl e, mgr') \<Rightarrow> (Inl e, mgr')
      | (Inr disconnected, mgr') \<Rightarrow>
          (Inr (), foldl (\<lambda>g client_id. disconnect client_id g) mgr' disconnected))"

text \<open>
  What a pass does to the handles, and the ids it notes, when no other task acts on the
  registry while it runs (lemma \<open>quiet_broadcast\<close>).
\<close>

definition pass_conns ::
  "jdict \<Rightarrow> string option \<Rightarrow> (string \<times> websocket) list \<Rightarrow> (string \<times> websocket) list" where
  "pass_conns m ex conns =
     map (\<lambda>(cid, ws). (cid, if Some cid \<noteq> ex \<and> ws_open ws then delivered m ws else ws)) conns"

definition pass_dead :: "string option \<Rightarrow> (string \<times> websocket) list \<Rightarrow> string list" where
  "pass_dead ex conns = map fst (filter (\<lambda>(cid, ws). Some cid \<noteq> ex \<and> \<not> ws_open ws) conns)"

text \<open>
  \<^verbatim>\<open>broadcast_to_room\<close>, first loop (lines 76 to 87), over the members of the room. The
  handles live in \<^verbatim>\<open>active_connections\<close>, which is threaded through. This is the pass
  during which no other task acts on the manager.
\<close>

fun room_pass ::
  "jdict \<Rightarrow> string option \<Rightarrow> string list \<Rightarrow> (string \<times> websocket) list \<Rightarrow>
   (string \<times> websocket) list \<times> string list" where
  "room_pass message exclude [] conns = (conns, [])"
| "room_pass message exclude (client_id # rest) conns =
     (if Some client_id = exclude then room_pass message exclude rest conns
      else (case map_of conns client_id of
              None \<Rightarrow>
                (let (conns', disconnected) = room_pass message exclude rest conns
                 in (conns', client_id # disconnected))
            | Some ws \<Rightarrow>
                (case send_json ws message of
                   Inl e \<Rightarrow>
                     (let (conns', disconnected) = room_pass message exclude rest conns
                      in (conns', client_id # disconnected))
                 | Inr ws' \<Rightarrow> room_pass message exclude rest (AList.update client_id ws' conns))))"

text \<open>
  Lines 71 and 72 return at once for an unknown room. The second loop (lines 90 and 91)
  discards each noted id from this room's set, and does nothing else.
\<close>

definition broadcast_to_room :: "string \<Rightarrow> jdict \<Rightarrow> string option \<Rightarrow> manager \<Rightarrow> manager" where
  "broadcast_to_room room message exclude mgr =
     (case map_of (rooms mgr) room of
        None \<Rightarrow> mgr
      | Some members \<Rightarrow>
          (let (conns, disconnected) = room_pass message exclude members (active_connections mgr)
           in mgr\<lparr>active_connections := conns,
                  rooms := foldl (\<lambda>rs client_id. AList.map_entry room (removeAll client_id) rs)
                             (rooms mgr) disconnected\<rparr>))"

definition join_room :: "string \<Rightarrow> string \<Rightarrow> manager \<Rightarrow> manager" where
  "join_room client_id room mgr =
     (let members = (case map_of (rooms mgr) room of None \<Rightarrow> [] | Some ms \<Rightarrow> ms)
      in mgr\<lparr>rooms := AList.update room (List.insert client_id members) (rooms mgr)\<rparr>)"

definition leave_room :: "string \<Rightarrow> string \<Rightarrow> manager \<Rightarrow> manager" where
  "leave_room client_id room mgr =
     mgr\<lparr>rooms := AList.map_entry room (removeAll client_id) (rooms mgr)\<rparr>"

definition get_room_count :: "string \<Rightarrow> manager \<Rightarrow> nat" where
  "get_room_count room mgr =
     length (case map_of (rooms mgr) room of None \<Rightarrow> [] | Some ms \<Rightarrow> ms)"

definition new_manager :: manager where
  "new_manager = \<lparr>active_connections = [], rooms = []\<rparr>"

text \<open>
  Scenario D: five registered connections in one room; the transport of the third is
  gone.
\<close>

definition up :: websocket where
  "up = \<lparr>ws_open = True, ws_sent = []\<rparr>"

definition down :: websocket where
  "down = \<lparr>ws_open = False, ws_sent = []\<rparr>"

definition hello :: jdict where
  "hello = [(''type'', JStr ''message'')]"

definition scenario_d :: manager where
  "scenario_d =
     \<lparr>active_connections = [(''a'', up), (''b'', up), (''c'', down), (''d'', up), (''e'', up)],
      rooms = [(''lobby'', [''a'', ''b'', ''c'', ''d'', ''e''])]\<rparr>"

section \<open>Properties of the event history\<close>

lemma log_inv_init: "log_inv init_state"
  by (simp add: log_inv_def init_state_def)

lemma log_inv_connected: "log_inv st \<Longrightarrow> log_inv (snd (connected st))"
  by (auto simp: log_inv_def connected_def Let_def)

lemma tick_state: "snd (tick ts v st) = snd (generate ts v st)"
  by (simp add: tick_def loop_pass_def split: prod.splits)

lemma generate_counter: "event_id_counter (snd (generate ts v st)) = event_id_counter st + 1"
  by (simp add: generate_def Let_def)

lemma connected_counter: "event_id_counter (snd (connected st)) = event_id_counter st + 1"
  by (simp add: connected_def Let_def)

lemma connected_history: "event_history (snd (connected st)) = event_history st"
  by (simp add: connected_def Let_def)

lemma generate_history:
  "event_history (snd (generate ts v st)) =
     (let h = event_history st @ [update_event ts v (event_id_counter st + 1)]
      in if length h > 100 then tl h else h)"
  by (simp add: generate_def Let_def)

lemma generate_history_drop:
  assumes "length (event_history st) \<le> 100"
  shows "event_history (snd (generate ts v st)) =
     drop (length (event_history st) + 1 - 100)
       (event_history st @ [update_event ts v (event_id_counter st + 1)])"
proof (cases "length (event_history st) = 100")
  case True
  then show ?thesis by (cases "event_history st") (simp_all add: generate_history Let_def)
next
  case False
  with assms have "length (event_history st) < 100" by simp
  then show ?thesis by (simp add: generate_history Let_def)
qed

lemma update_event_id [simp]: "ev_id (update_event ts v c) = c"
  by (simp add: update_event_def)

lemma log_inv_generate:
  assumes "log_inv st"
  shows "log_inv (snd (generate ts v st))"
proof -
  let ?h = "event_history st"
  let ?c = "event_id_counter st"
  let ?X = "?h @ [update_event ts v (?c + 1)]"
  from assms have len: "length ?h \<le> 100"
    and srt: "sorted_wrt (<) (map ev_id ?h)"
    and bnd: "\<forall>e \<in> set ?h. ev_id e \<le> ?c"
    by (simp_all add: log_inv_def)
  have eq: "event_history (snd (generate ts v st)) = drop (length ?h + 1 - 100) ?X"
    using len by (rule generate_history_drop)
  have sX: "sorted_wrt (<) (map ev_id ?X)"
    using srt bnd by (fastforce simp: sorted_wrt_append)
  have bX: "\<forall>e \<in> set ?X. ev_id e \<le> ?c + 1"
    using bnd by fastforce
  have 1: "sorted_wrt (<) (map ev_id (drop (length ?h + 1 - 100) ?X))"
    using sX by (simp only: drop_map [symmetric] sorted_wrt_drop)
  have 2: "\<forall>e \<in> set (drop (length ?h + 1 - 100) ?X). ev_id e \<le> ?c + 1"
    using bX by (meson in_set_dropD)
  have 3: "length (drop (length ?h + 1 - 100) ?X) \<le> 100"
    using len by simp
  show ?thesis
    unfolding log_inv_def eq generate_counter using 1 2 3 by blast
qed

lemma log_inv_act: "log_inv st \<Longrightarrow> log_inv (act a st)"
  by (cases a) (simp_all add: log_inv_connected log_inv_generate tick_state)

lemma log_inv_run: "log_inv st \<Longrightarrow> log_inv (run as st)"
  by (induction as arbitrary: st) (simp_all add: log_inv_act)

lemma run_history:
  "length (event_history st) \<le> 100 \<Longrightarrow>
   event_history (run as st) =
     drop (length (event_history st @ appended as st) - 100) (event_history st @ appended as st)"
proof (induction as arbitrary: st)
  case Nil
  then show ?case by simp
next
  case (Cons a as)
  show ?case
  proof (cases a)
    case Open
    with Cons show ?thesis by (simp add: connected_history)
  next
    case (Tick ts v)
    let ?h = "event_history st"
    let ?e = "update_event ts v (event_id_counter st + 1)"
    let ?st1 = "act (Tick ts v) st"
    let ?app = "appended as ?st1"
    have h1: "event_history ?st1 = drop (length ?h + 1 - 100) (?h @ [?e])"
      using Cons.prems by (simp add: tick_state generate_history_drop)
    then have len1: "length (event_history ?st1) \<le> 100"
      using Cons.prems by simp
    have "event_history (run as ?st1) =
        drop (length (event_history ?st1 @ ?app) - 100) (event_history ?st1 @ ?app)"
      using len1 by (rule Cons.IH)
    also have "\<dots> = drop (length (?h @ ?e # ?app) - 100) (?h @ ?e # ?app)"
    proof (cases "length ?h = 100")
      case True
      then have "event_history ?st1 = tl ?h @ [?e]"
        using h1 by (cases ?h) simp_all
      with True show ?thesis by (cases ?h) simp_all
    next
      case False
      with Cons.prems have "length ?h < 100" by simp
      then show ?thesis using h1 by simp
    qed
    finally show ?thesis using Tick by simp
  qed
qed

lemma replay_state: "snd (replay cur st) = st"
  by (simp add: replay_def split: option.splits)

lemma live_Cons:
  "live ((ts, v) # rest) st =
     (fst (tick ts v st) @ fst (live rest (snd (tick ts v st))),
      snd (live rest (snd (tick ts v st))))"
  by (simp split: prod.splits)

lemma live_state: "snd (live inputs st) = run (ticks inputs) st"
proof (induction inputs arbitrary: st)
  case Nil
  then show ?case by (simp add: ticks_def)
next
  case (Cons x xs)
  obtain ts v where x: "x = (ts, v)" by (cases x)
  have "snd (live (x # xs) st) = snd (live xs (snd (tick ts v st)))"
    unfolding x live_Cons by simp
  also have "\<dots> = run (ticks xs) (snd (tick ts v st))" by (rule Cons.IH)
  finally show ?case by (simp add: x ticks_def tick_state)
qed

lemma live_append:
  "live (xs @ ys) st =
     (fst (live xs st) @ fst (live ys (snd (live xs st))), snd (live ys (snd (live xs st))))"
proof (induction xs arbitrary: st)
  case Nil
  then show ?case by simp
next
  case (Cons x xs)
  obtain ts v where x: "x = (ts, v)" by (cases x)
  show ?case unfolding x append_Cons live_Cons Cons.IH by simp
qed

lemma frame_ids_append: "frame_ids (fs @ gs) = frame_ids fs @ frame_ids gs"
  by (induction fs rule: frame_ids.induct) simp_all

lemma tick_frames:
  "fst (tick ts v st) =
     [IdLine (event_id_counter st + 1), EventLine ''update'',
      DataLine (update_data ts v (event_id_counter st + 1))] @
     (if (event_id_counter st + 1) mod 15 = 0 then [CommentLine ''heartbeat''] else [])"
  by (simp add: tick_def loop_pass_def generate_def heartbeat_def Let_def)

lemma tick_counter: "event_id_counter (snd (tick ts v st)) = event_id_counter st + 1"
  by (simp add: tick_state generate_counter)

lemma live_frame_ids:
  "frame_ids (fst (live inputs st)) =
     [event_id_counter st + 1 .. event_id_counter st + int (length inputs)]"
proof (induction inputs arbitrary: st)
  case Nil
  then show ?case by simp
next
  case (Cons x xs)
  obtain ts v where x: "x = (ts, v)" by (cases x)
  let ?c = "event_id_counter st"
  have "frame_ids (fst (live (x # xs) st)) =
      frame_ids (fst (tick ts v st)) @ frame_ids (fst (live xs (snd (tick ts v st))))"
    unfolding x live_Cons by (simp add: frame_ids_append)
  also have "frame_ids (fst (tick ts v st)) = [?c + 1]"
    by (simp add: tick_frames)
  also have "frame_ids (fst (live xs (snd (tick ts v st)))) =
      [?c + 1 + 1 .. ?c + int (length (x # xs))]"
    by (simp add: Cons.IH tick_counter add.assoc)
  also have "[?c + 1] @ [?c + 1 + 1 .. ?c + int (length (x # xs))] =
      [?c + 1 .. ?c + int (length (x # xs))]"
    using upto_rec1 [of "?c + 1" "?c + int (length (x # xs))"] by simp
  finally show ?case .
qed

lemma appended_ticks_ids:
  "map ev_id (appended (ticks inputs) st) =
     [event_id_counter st + 1 .. event_id_counter st + int (length inputs)]"
proof (induction inputs arbitrary: st)
  case Nil
  then show ?case by (simp add: ticks_def)
next
  case (Cons x xs)
  obtain ts v where x: "x = (ts, v)" by (cases x)
  let ?c = "event_id_counter st"
  have "map ev_id (appended (ticks (x # xs)) st) =
      [?c + 1] @ map ev_id (appended (ticks xs) (snd (tick ts v st)))"
    by (simp add: x ticks_def tick_state)
  also have "map ev_id (appended (ticks xs) (snd (tick ts v st))) =
      [?c + 1 + 1 .. ?c + int (length (x # xs))]"
    by (simp add: Cons.IH tick_counter add.assoc)
  also have "[?c + 1] @ [?c + 1 + 1 .. ?c + int (length (x # xs))] =
      [?c + 1 .. ?c + int (length (x # xs))]"
    using upto_rec1 [of "?c + 1" "?c + int (length (x # xs))"] by simp
  finally show ?case .
qed

lemma upto_drop: "drop k [i..j] = [i + int k..j]"
proof (induction k arbitrary: i)
  case 0
  then show ?case by simp
next
  case (Suc k)
  show ?case
  proof (cases "i \<le> j")
    case True
    then have "drop (Suc k) [i..j] = drop k [i + 1..j]"
      by (simp add: upto_rec1 [of i j])
    also have "\<dots> = [i + 1 + int k..j]" by (rule Suc.IH)
    finally show ?thesis by (simp add: add.commute add.left_commute)
  next
    case False
    then show ?thesis by simp
  qed
qed

lemma session_state: "snd (event_generator cur inputs st) = run (Open # ticks inputs) st"
proof -
  have "snd (live inputs (snd (connected st))) = run (ticks inputs) (snd (connected st))"
    by (rule live_state)
  moreover have "snd (replay cur st) = st" by (rule replay_state)
  ultimately show ?thesis
    by (simp add: event_generator_def split: prod.splits) (metis snd_conv)
qed

lemma session_ids:
  "map ev_id (event_history (snd (event_generator cur inputs init_state))) =
     drop (length inputs - 100) [2 .. int (length inputs) + 1]"
proof -
  let ?as = "Open # ticks inputs"
  have app: "map ev_id (appended ?as init_state) = [2 .. int (length inputs) + 1]"
    using appended_ticks_ids [of inputs "act Open init_state"]
    by (simp add: connected_counter init_state_def add.commute)
  have "event_history (run ?as init_state) =
      drop (length (event_history init_state @ appended ?as init_state) - 100)
        (event_history init_state @ appended ?as init_state)"
    by (rule run_history) (simp add: init_state_def)
  then have "event_history (run ?as init_state) =
      drop (length (appended ?as init_state) - 100) (appended ?as init_state)"
    by (simp add: init_state_def)
  moreover have "length (appended ?as init_state) = length inputs"
    using arg_cong [OF app, of length] by simp
  ultimately have "map ev_id (event_history (run ?as init_state)) =
      drop (length inputs - 100) (map ev_id (appended ?as init_state))"
    by (simp add: drop_map)
  then show ?thesis by (simp only: session_state app)
qed

lemma since_sorted_suffix:
  assumes "sorted_wrt (<) (map ev_id h)"
  shows "since c h = dropWhile (\<lambda>e. ev_id e \<le> c) h"
  using assms
proof (induction h)
  case Nil
  then show ?case by (simp add: since_def)
next
  case (Cons e h)
  show ?case
  proof (cases "ev_id e \<le> c")
    case True
    with Cons show ?thesis by (simp add: since_def)
  next
    case False
    with Cons.prems have "\<forall>x \<in> set h. c < ev_id x" by auto
    then have "filter (\<lambda>e. c < ev_id e) h = h" by (simp add: filter_id_conv)
    with False show ?thesis by (simp add: since_def)
  qed
qed

lemma replay_parsed:
  "py_int s = Some c \<Longrightarrow>
   replay (Some s) st = (concat (map event_frames (since c (event_history st))), st)"
  by (auto simp: replay_def py_int_def strip_def)

lemma frame_ids_replay:
  "frame_ids (concat (map event_frames es)) = map ev_id es"
  by (induction es) (simp_all add: event_frames_def)

lemma act_counter: "event_id_counter (act a st) = event_id_counter st + 1"
  by (cases a) (simp_all add: connected_counter generate_counter)

lemma run_counter: "event_id_counter (run acts st) = event_id_counter st + int (length acts)"
  by (induction acts arbitrary: st) (simp_all add: act_counter)

section \<open>Properties of the connection manager\<close>

lemma disconnect_conns:
  "active_connections (disconnect c g) = filter (\<lambda>(k, ws). c \<noteq> k) (active_connections g)"
proof -
  have "c \<notin> set (map fst conns) \<Longrightarrow> filter (\<lambda>(k, ws). c \<noteq> k) conns = conns"
    for conns :: "(string \<times> websocket) list"
    by (induction conns) auto
  then show ?thesis
    by (auto simp: disconnect_def AList.delete_eq case_prod_unfold)
qed

lemma disconnect_rooms:
  "rooms (disconnect c g) = map (\<lambda>(r, ms). (r, removeAll c ms)) (rooms g)"
  by (simp add: disconnect_def)

lemma disconnect_all_conns:
  "active_connections (foldl (\<lambda>g c. disconnect c g) g dead) =
     filter (\<lambda>(k, ws). k \<notin> set dead) (active_connections g)"
  by (induction dead arbitrary: g) (auto simp: disconnect_conns case_prod_unfold intro: filter_cong)

lemma disconnect_all_rooms:
  "rooms (foldl (\<lambda>g c. disconnect c g) g dead) =
     map (\<lambda>(r, ms). (r, filter (\<lambda>c. c \<notin> set dead) ms)) (rooms g)"
proof (induction dead arbitrary: g)
  case Nil
  then show ?case by (simp add: case_prod_unfold)
next
  case (Cons d dead)
  have "filter (\<lambda>c. c \<notin> set dead) (removeAll d ms) = filter (\<lambda>c. c \<notin> set (d # dead)) ms" for ms
    by (induction ms) auto
  then show ?case
    by (simp add: Cons.IH disconnect_rooms case_prod_unfold comp_def)
qed

lemma quiet_loop:
  assumes "set sched \<subseteq> {Quiet}" and "length (active_connections mgr) = n" and "i \<le> n"
  shows "broadcast_loop m ex n i sched mgr =
     (Inr (map fst (filter (\<lambda>(cid, ws). Some cid \<noteq> ex \<and> \<not> ws_open ws)
             (drop i (active_connections mgr)))),
      mgr\<lparr>active_connections :=
            take i (active_connections mgr) @
            map (\<lambda>(cid, ws). (cid, if Some cid \<noteq> ex \<and> ws_open ws then delivered m ws else ws))
              (drop i (active_connections mgr))\<rparr>)"
  using assms
proof (induction "n - i" arbitrary: i sched mgr)
  case 0
  then have "i = n" by simp
  with 0 show ?case by (simp add: broadcast_loop.simps [of m ex n n])
next
  case (Suc k)
  let ?conns = "active_connections mgr"
  from Suc have i: "i < n" and len: "length ?conns = n" by simp_all
  obtain cid ws where at: "?conns ! i = (cid, ws)" by (cases "?conns ! i")
  have dr: "drop i ?conns = (cid, ws) # drop (Suc i) ?conns"
    using i len at by (metis Cons_nth_drop_Suc)
  have tk: "take (Suc i) ?conns = take i ?conns @ [(cid, ws)]"
    using i len at by (simp add: take_Suc_conv_app_nth)
  have q: "(case sched of [] \<Rightarrow> Quiet | other # rest \<Rightarrow> other) = Quiet"
    using Suc.prems(1) by (cases sched) auto
  have tl: "set (tl sched) \<subseteq> {Quiet}"
    using Suc.prems(1) by (cases sched) auto
  have k: "k = n - Suc i" using Suc.hyps(2) by simp
  show ?case
  proof (cases "Some cid = ex")
    case True
    have "broadcast_loop m ex n i sched mgr = broadcast_loop m ex n (Suc i) sched mgr"
      using i len at True by (subst broadcast_loop.simps) simp
    also have "\<dots> = (Inr (map fst (filter (\<lambda>(cid, ws). Some cid \<noteq> ex \<and> \<not> ws_open ws)
             (drop (Suc i) ?conns))),
      mgr\<lparr>active_connections := take (Suc i) ?conns @
            map (\<lambda>(cid, ws). (cid, if Some cid \<noteq> ex \<and> ws_open ws then delivered m ws else ws))
              (drop (Suc i) ?conns)\<rparr>)"
      using Suc.hyps(1) [OF k Suc.prems(1) len] i by simp
    finally show ?thesis using True by (simp add: dr tk)
  next
    case False
    show ?thesis
    proof (cases "ws_open ws")
      case True
      let ?mgr1 = "mgr\<lparr>active_connections := ?conns[i := (cid, delivered m ws)]\<rparr>"
      have len1: "length (active_connections ?mgr1) = n" using len by simp
      have d1: "drop (Suc i) (active_connections ?mgr1) = drop (Suc i) ?conns"
        by simp
      have t1: "take (Suc i) (active_connections ?mgr1) = take i ?conns @ [(cid, delivered m ws)]"
        using i len by (simp add: take_Suc_conv_app_nth)
      have rec: "broadcast_loop m ex n (Suc i) (tl sched) ?mgr1 =
        (Inr (map fst (filter (\<lambda>(cid, ws). Some cid \<noteq> ex \<and> \<not> ws_open ws)
             (drop (Suc i) ?conns))),
         mgr\<lparr>active_connections := (take i ?conns @ [(cid, delivered m ws)]) @
            map (\<lambda>(cid, ws). (cid, if Some cid \<noteq> ex \<and> ws_open ws then delivered m ws else ws))
              (drop (Suc i) ?conns)\<rparr>)"
        using Suc.hyps(1) [OF k tl len1] i by (simp only: d1 t1) simp
      show ?thesis
        using i len at False True q
        by (subst broadcast_loop.simps) (simp add: send_json_def Let_def rec dr)
    next
      case down: False
      have rec: "broadcast_loop m ex n (Suc i) (tl sched) mgr =
        (Inr (map fst (filter (\<lambda>(cid, ws). Some cid \<noteq> ex \<and> \<not> ws_open ws)
             (drop (Suc i) ?conns))),
         mgr\<lparr>active_connections := take (Suc i) ?conns @
            map (\<lambda>(cid, ws). (cid, if Some cid \<noteq> ex \<and> ws_open ws then delivered m ws else ws))
              (drop (Suc i) ?conns)\<rparr>)"
        using Suc.hyps(1) [OF k tl len] i by simp
      show ?thesis
        using i len at False down q
        by (subst broadcast_loop.simps) (simp add: send_json_def Let_def rec dr tk)
    qed
  qed
qed

lemma quiet_broadcast:
  assumes "set sched \<subseteq> {Quiet}"
  shows "broadcast m ex sched mgr =
     (Inr (),
      foldl (\<lambda>g cid. disconnect cid g)
        (mgr\<lparr>active_connections := pass_conns m ex (active_connections mgr)\<rparr>)
        (pass_dead ex (active_connections mgr)))"
  using quiet_loop [OF assms refl, of 0 mgr m ex]
  by (simp add: broadcast_def pass_conns_def pass_dead_def)

lemma pass_conns_keys: "map fst (pass_conns m ex conns) = map fst conns"
  by (simp add: pass_conns_def case_prod_unfold comp_def)

lemma quiet_broadcast_conns:
  assumes "set sched \<subseteq> {Quiet}"
  shows "active_connections (snd (broadcast m ex sched mgr)) =
     filter (\<lambda>(k, ws). k \<notin> set (pass_dead ex (active_connections mgr)))
       (pass_conns m ex (active_connections mgr))"
  by (simp add: quiet_broadcast [OF assms] disconnect_all_conns)

lemma quiet_broadcast_rooms:
  assumes "set sched \<subseteq> {Quiet}"
  shows "rooms (snd (broadcast m ex sched mgr)) =
     map (\<lambda>(r, ms). (r, filter (\<lambda>c. c \<notin> set (pass_dead ex (active_connections mgr))) ms))
       (rooms mgr)"
  by (simp add: quiet_broadcast [OF assms] disconnect_all_rooms)

lemma quiet_broadcast_live_target:
  assumes q: "set sched \<subseteq> {Quiet}"
    and d: "distinct (map fst (active_connections mgr))"
    and mem: "(cid, ws) \<in> set (active_connections mgr)"
    and live: "ws_open ws" and nex: "Some cid \<noteq> ex"
  shows "map_of (active_connections (snd (broadcast m ex sched mgr))) cid = Some (delivered m ws)"
proof -
  let ?conns = "active_connections mgr"
  have key: "cid \<notin> set (pass_dead ex ?conns)"
  proof
    assume "cid \<in> set (pass_dead ex ?conns)"
    then obtain ws' where "(cid, ws') \<in> set ?conns" and "\<not> ws_open ws'"
      by (auto simp: pass_dead_def)
    with d mem have "ws' = ws" by (meson eq_key_imp_eq_value)
    with \<open>\<not> ws_open ws'\<close> live show False by simp
  qed
  have "(cid, delivered m ws) \<in> set (pass_conns m ex ?conns)"
    using mem live nex by (force simp: pass_conns_def)
  with key have "(cid, delivered m ws) \<in> set (active_connections (snd (broadcast m ex sched mgr)))"
    by (simp add: quiet_broadcast_conns [OF q])
  moreover have "distinct (map fst (active_connections (snd (broadcast m ex sched mgr))))"
    using d by (simp add: quiet_broadcast_conns [OF q] distinct_map_filter pass_conns_keys)
  ultimately show ?thesis by simp
qed

lemma quiet_broadcast_dead_target:
  assumes "set sched \<subseteq> {Quiet}" and "cid \<in> set (pass_dead ex (active_connections mgr))"
  shows "map_of (active_connections (snd (broadcast m ex sched mgr))) cid = None"
    and "\<forall>(r, ms) \<in> set (rooms (snd (broadcast m ex sched mgr))). cid \<notin> set ms"
  using assms(2)
  by (auto simp: quiet_broadcast_conns [OF assms(1)] quiet_broadcast_rooms [OF assms(1)]
      map_of_eq_None_iff)

lemma quiet_broadcast_excluded_target:
  assumes q: "set sched \<subseteq> {Quiet}"
    and d: "distinct (map fst (active_connections mgr))"
    and mem: "(x, ws) \<in> set (active_connections mgr)"
  shows "x \<notin> set (pass_dead (Some x) (active_connections mgr))"
    and "map_of (active_connections (snd (broadcast m (Some x) sched mgr))) x = Some ws"
proof -
  let ?conns = "active_connections mgr"
  show key: "x \<notin> set (pass_dead (Some x) ?conns)"
    by (auto simp: pass_dead_def)
  have "(x, ws) \<in> set (pass_conns m (Some x) ?conns)"
    using mem by (force simp: pass_conns_def)
  with key have "(x, ws) \<in> set (active_connections (snd (broadcast m (Some x) sched mgr)))"
    by (simp add: quiet_broadcast_conns [OF q])
  moreover have "distinct (map fst (active_connections (snd (broadcast m (Some x) sched mgr))))"
    using d by (simp add: quiet_broadcast_conns [OF q] distinct_map_filter pass_conns_keys)
  ultimately show "map_of (active_connections (snd (broadcast m (Some x) sched mgr))) x = Some ws"
    by simp
qed

text \<open>
  A pass during which no other task acts on the registry does what the claims C4 and C6
  say: it returns, every id but the excluded one is sent to, the ids whose send failed
  are unregistered and leave every room, and the others keep their handle with the
  message added.
\<close>

lemma undisturbed_broadcast:
  assumes q: "set sched \<subseteq> {Quiet}" and d: "distinct (map fst (active_connections mgr))"
  shows "fst (broadcast m ex sched mgr) = Inr ()"
    and "\<forall>(cid, ws) \<in> set (active_connections mgr). Some cid \<noteq> ex \<and> \<not> ws_open ws \<longrightarrow>
           map_of (active_connections (snd (broadcast m ex sched mgr))) cid = None \<and>
           (\<forall>(r, ms) \<in> set (rooms (snd (broadcast m ex sched mgr))). cid \<notin> set ms)"
    and "\<forall>(cid, ws) \<in> set (active_connections mgr). Some cid \<noteq> ex \<and> ws_open ws \<longrightarrow>
           map_of (active_connections (snd (broadcast m ex sched mgr))) cid =
             Some (delivered m ws)"
    and "\<forall>(cid, ws) \<in> set (active_connections mgr). Some cid = ex \<longrightarrow>
           map_of (active_connections (snd (broadcast m ex sched mgr))) cid = Some ws"
proof -
  show "fst (broadcast m ex sched mgr) = Inr ()"
    by (simp add: quiet_broadcast [OF q])
  show "\<forall>(cid, ws) \<in> set (active_connections mgr). Some cid \<noteq> ex \<and> \<not> ws_open ws \<longrightarrow>
           map_of (active_connections (snd (broadcast m ex sched mgr))) cid = None \<and>
           (\<forall>(r, ms) \<in> set (rooms (snd (broadcast m ex sched mgr))). cid \<notin> set ms)"
  proof (clarify, rule conjI)
    fix cid ws
    assume "(cid, ws) \<in> set (active_connections mgr)" "Some cid \<noteq> ex" "\<not> ws_open ws"
    then have dead: "cid \<in> set (pass_dead ex (active_connections mgr))"
      by (force simp: pass_dead_def)
    show "map_of (active_connections (snd (broadcast m ex sched mgr))) cid = None"
      by (rule quiet_broadcast_dead_target(1) [OF q dead])
    show "\<forall>(r, ms) \<in> set (rooms (snd (broadcast m ex sched mgr))). cid \<notin> set ms"
      by (rule quiet_broadcast_dead_target(2) [OF q dead])
  qed
  show "\<forall>(cid, ws) \<in> set (active_connections mgr). Some cid \<noteq> ex \<and> ws_open ws \<longrightarrow>
           map_of (active_connections (snd (broadcast m ex sched mgr))) cid =
             Some (delivered m ws)"
    using quiet_broadcast_live_target [OF q d] by auto
  show "\<forall>(cid, ws) \<in> set (active_connections mgr). Some cid = ex \<longrightarrow>
           map_of (active_connections (snd (broadcast m ex sched mgr))) cid = Some ws"
    using quiet_broadcast_excluded_target(2) [OF q d] by auto
qed

section \<open>Claims about the stream session\<close>

lemma run_open_two_ticks:
  "map ev_id (event_history (run [Open, Tick ''t'' 5, Tick ''u'' 6] init_state)) = [2, 3]"
  by (simp add: tick_state generate_history connected_history connected_counter
      generate_counter init_state_def Let_def)

text \<open>
  Claim C5. In every state that sessions can reach from the initial one, the replay for
  a cursor \<open>c\<close> is exactly the stored events with an id greater than \<open>c\<close>, in
  strictly ascending id order; it is the history from its first event beyond \<open>c\<close>
  on, so a cursor below every stored id gives the whole history, without an error; and
  the replay leaves the globals as they were, so a second replay with the same cursor
  yields the same frames.
\<close>

theorem since_returns_later_events:
  "let h = event_history (run acts init_state) in
     since c h = filter (\<lambda>e. c < ev_id e) h \<and>
     sorted_wrt (<) (map ev_id (since c h)) \<and>
     since c h = dropWhile (\<lambda>e. ev_id e \<le> c) h \<and>
     ((\<forall>e \<in> set h. c < ev_id e) \<longrightarrow> since c h = h) \<and>
     (py_int s = Some c \<longrightarrow>
        fst (replay (Some s) (run acts init_state)) = concat (map event_frames (since c h)) \<and>
        frame_ids (fst (replay (Some s) (run acts init_state))) = map ev_id (since c h) \<and>
        snd (replay (Some s) (run acts init_state)) = run acts init_state \<and>
        replay (Some s) (snd (replay (Some s) (run acts init_state))) =
          replay (Some s) (run acts init_state))"
proof -
  let ?st = "run acts init_state"
  let ?h = "event_history ?st"
  have inv: "log_inv ?st" by (rule log_inv_run [OF log_inv_init])
  then have srt: "sorted_wrt (<) (map ev_id ?h)" by (simp add: log_inv_def)
  have 1: "since c ?h = filter (\<lambda>e. c < ev_id e) ?h" by (simp add: since_def)
  have 2: "sorted_wrt (<) (map ev_id (since c ?h))"
    unfolding since_def using srt by (simp add: sorted_wrt_map sorted_wrt_filter)
  have 3: "since c ?h = dropWhile (\<lambda>e. ev_id e \<le> c) ?h"
    using srt by (rule since_sorted_suffix)
  have 4: "(\<forall>e \<in> set ?h. c < ev_id e) \<longrightarrow> since c ?h = ?h"
    by (simp add: since_def filter_id_conv)
  have 5: "py_int s = Some c \<longrightarrow>
        fst (replay (Some s) ?st) = concat (map event_frames (since c ?h)) \<and>
        frame_ids (fst (replay (Some s) ?st)) = map ev_id (since c ?h) \<and>
        snd (replay (Some s) ?st) = ?st \<and>
        replay (Some s) (snd (replay (Some s) ?st)) = replay (Some s) ?st"
    by (simp add: replay_parsed frame_ids_replay)
  show ?thesis unfolding Let_def using 1 2 3 4 5 by blast
qed

theorem since_returns_later_events_witness:
  "py_int ''2'' = Some 2 \<and>
   map ev_id (since 2 (event_history (run [Open, Tick ''t'' 5, Tick ''u'' 6] init_state))) = [3] \<and>
   frame_ids (fst (replay (Some ''2'') (run [Open, Tick ''t'' 5, Tick ''u'' 6] init_state))) = [3] \<and>
   since 1 (event_history (run [Open, Tick ''t'' 5, Tick ''u'' 6] init_state)) =
     event_history (run [Open, Tick ''t'' 5, Tick ''u'' 6] init_state)"
proof -
  let ?as = "[Open, Tick ''t'' 5, Tick ''u'' 6]"
  have p: "py_int ''2'' = Some 2" by code_simp
  have ids: "map ev_id (event_history (run ?as init_state)) = [2, 3]"
    by (rule run_open_two_ticks)
  have f: "map ev_id (filter (\<lambda>e. 2 < ev_id e) (event_history (run ?as init_state))) = [3]"
    using ids by (simp add: filter_map [symmetric, unfolded comp_def] del: run.simps)
  have b: "\<forall>e \<in> set (event_history (run ?as init_state)). 1 < ev_id e"
  proof
    fix e assume "e \<in> set (event_history (run ?as init_state))"
    then have "ev_id e \<in> set (map ev_id (event_history (run ?as init_state)))" by simp
    then show "1 < ev_id e" unfolding ids by auto
  qed
  note T = since_returns_later_events [of ?as 2 "''2''", unfolded Let_def]
  from T have s2: "since 2 (event_history (run ?as init_state)) =
      filter (\<lambda>e. 2 < ev_id e) (event_history (run ?as init_state))"
    by blast
  from T p have r: "frame_ids (fst (replay (Some ''2'') (run ?as init_state))) =
      map ev_id (since 2 (event_history (run ?as init_state)))"
    by blast
  have A: "map ev_id (since 2 (event_history (run ?as init_state))) = [3]"
    using f by (simp only: s2)
  have B: "frame_ids (fst (replay (Some ''2'') (run ?as init_state))) = [3]"
    using A by (simp only: r)
  from since_returns_later_events [of ?as 1 "''2''", unfolded Let_def] b
  have C: "since 1 (event_history (run ?as init_state)) = event_history (run ?as init_state)"
    by blast
  from p A B C show ?thesis by blast
qed

text \<open>
  Claim C10. A cursor string that \<^verbatim>\<open>int\<close> rejects replays nothing and raises nothing,
  and leaves the globals alone; the session goes on as it does when no cursor is
  supplied: its first three frames are the connected event, under the next value of
  the counter, and the passes of its loop follow.
\<close>

theorem unparsable_cursor_no_replay:
  assumes "py_int s = None"
  shows "fst (replay (Some s) st) = [] \<and>
         snd (replay (Some s) st) = st \<and>
         event_generator (Some s) inputs st = event_generator None inputs st \<and>
         fst (event_generator (Some s) inputs st) =
           fst (connected st) @ fst (live inputs (snd (connected st))) \<and>
         snd (event_generator (Some s) inputs st) = snd (live inputs (snd (connected st))) \<and>
         take 3 (fst (event_generator (Some s) inputs st)) =
           [IdLine (event_id_counter st + 1), EventLine ''connected'',
            DataLine [(''message'', JStr ''Connected to SSE stream'')]] \<and>
         snd (connected st) = st\<lparr>event_id_counter := event_id_counter st + 1\<rparr>"
proof -
  have r: "replay (Some s) st = ([], st)"
    using assms by (simp add: replay_def)
  have n: "replay None st = ([], st)"
    by (simp add: replay_def)
  have g: "event_generator (Some s) inputs st =
      (fst (connected st) @ fst (live inputs (snd (connected st))),
       snd (live inputs (snd (connected st))))"
    by (simp add: event_generator_def r case_prod_unfold Let_def)
  have "event_generator None inputs st = event_generator (Some s) inputs st"
    by (simp add: event_generator_def r n)
  moreover have "take 3 (fst (connected st) @ fst (live inputs (snd (connected st)))) =
      [IdLine (event_id_counter st + 1), EventLine ''connected'',
       DataLine [(''message'', JStr ''Connected to SSE stream'')]]"
    by (simp add: connected_def Let_def)
  moreover have "snd (connected st) = st\<lparr>event_id_counter := event_id_counter st + 1\<rparr>"
    by (simp add: connected_def Let_def)
  ultimately show ?thesis
    using r g by simp
qed

theorem unparsable_cursor_no_replay_witness:
  "py_int ''abc'' = None \<and>
   fst (replay (Some ''abc'') (run [Open, Tick ''t'' 5] init_state)) = [] \<and>
   event_generator (Some ''abc'') [(''u'', 6)] (run [Open, Tick ''t'' 5] init_state) =
     event_generator None [(''u'', 6)] (run [Open, Tick ''t'' 5] init_state) \<and>
   take 3 (fst (event_generator (Some ''abc'') [(''u'', 6)]
       (run [Open, Tick ''t'' 5] init_state))) =
     [IdLine 3, EventLine ''connected'',
      DataLine [(''message'', JStr ''Connected to SSE stream'')]]"
proof -
  let ?st = "run [Open, Tick ''t'' 5] init_state"
  have p: "py_int ''abc'' = None" by code_simp
  have c: "event_id_counter ?st = 2"
    by (simp add: run_counter init_state_def del: run.simps)
  note T = unparsable_cursor_no_replay [OF p, of ?st "[(''u'', 6)]"]
  from T have "take 3 (fst (event_generator (Some ''abc'') [(''u'', 6)] ?st)) =
      [IdLine (event_id_counter ?st + 1), EventLine ''connected'',
       DataLine [(''message'', JStr ''Connected to SSE stream'')]]"
    by blast
  then have "take 3 (fst (event_generator (Some ''abc'') [(''u'', 6)] ?st)) =
      [IdLine 3, EventLine ''connected'',
       DataLine [(''message'', JStr ''Connected to SSE stream'')]]"
    by (simp only: c) simp
  with T p show ?thesis by blast
qed

lemma generate_frame_ids: "frame_ids (fst (generate ts v st)) = [event_id_counter st + 1]"
  by (simp add: generate_def Let_def)

lemma generate_last:
  "event_history (snd (generate ts v st)) \<noteq> [] \<and>
   last (event_history (snd (generate ts v st))) = update_event ts v (event_id_counter st + 1)"
proof (cases "event_history st")
  case Nil
  then show ?thesis by (simp add: generate_history Let_def)
next
  case (Cons e h)
  then show ?thesis by (simp add: generate_history Let_def)
qed

lemma generate_evicts_oldest:
  assumes "length (event_history st) \<le> 100"
  shows "event_history (snd (generate ts v st)) =
     (if length (event_history st) < 100 then event_history st
      else tl (event_history st)) @ [update_event ts v (event_id_counter st + 1)]"
proof (cases "event_history st")
  case Nil
  then show ?thesis by (simp add: generate_history Let_def)
next
  case (Cons e h)
  with assms show ?thesis by (auto simp: generate_history Let_def)
qed

lemma run_history_init:
  "event_history (run acts init_state) =
     drop (length (appended acts init_state) - 100) (appended acts init_state)"
  using run_history [of init_state acts] by (simp add: init_state_def)

lemma session_lowest:
  assumes "100 < length inputs"
  shows "map ev_id (event_history (snd (event_generator cur inputs init_state))) =
     [int (length inputs) - 98 .. int (length inputs) + 1]"
proof -
  have "2 + int (length inputs - 100) = int (length inputs) - 98"
    using assms by simp
  then show ?thesis by (simp add: session_ids upto_drop)
qed

lemma since_all:
  assumes "\<forall>i \<in> set (map ev_id h). c < i"
  shows "since c h = h"
  using assms by (simp add: since_def filter_id_conv)

lemma session_150:
  assumes "length inputs = 150"
  shows "map ev_id (since 0 (event_history (snd (event_generator cur inputs init_state)))) =
     [52..151]"
    and "length (since 0 (event_history (snd (event_generator cur inputs init_state)))) = 100"
proof -
  let ?h = "event_history (snd (event_generator cur inputs init_state))"
  have ids: "map ev_id ?h = [52..151]"
    using session_lowest [of inputs cur] assms by simp
  then have "\<forall>i \<in> set (map ev_id ?h). 0 < i" by (simp only: ids) auto
  then have all: "since 0 ?h = ?h" by (rule since_all)
  show "map ev_id (since 0 ?h) = [52..151]" by (simp only: all ids)
  have "length (map ev_id ?h) = 100" by (simp only: ids) simp
  then show "length (since 0 ?h) = 100" by (simp only: all length_map)
qed

text \<open>
  Claim C1, as the code has it. The id of an appended event is the shared counter plus
  one, and the counter also numbers every connected event, which is not stored: after
  any actions of any sessions the counter is the number of actions so far, the stored
  ids are strictly increasing and none exceeds the counter, and a pass of the loop
  yields and stores its event under the next counter value. A session that runs alone
  from the initial state stores the ids 2, 3, and so on without a gap, less those
  evicted: its connected event took id 1.
\<close>

theorem append_takes_next_counter_value:
  "let st = run acts init_state in
     sorted_wrt (<) (map ev_id (event_history st)) \<and>
     (\<forall>e \<in> set (event_history st). ev_id e \<le> event_id_counter st) \<and>
     event_id_counter st = int (length acts) \<and>
     frame_ids (fst (generate ts v st)) = [event_id_counter st + 1] \<and>
     event_history (snd (generate ts v st)) \<noteq> [] \<and>
     last (event_history (snd (generate ts v st))) = update_event ts v (event_id_counter st + 1) \<and>
     event_id_counter (snd (generate ts v st)) = event_id_counter st + 1 \<and>
     map ev_id (event_history (snd (event_generator cur inputs init_state))) =
       drop (length inputs - 100) [2 .. int (length inputs) + 1]"
proof -
  let ?st = "run acts init_state"
  have inv: "log_inv ?st" by (rule log_inv_run [OF log_inv_init])
  then have 1: "sorted_wrt (<) (map ev_id (event_history ?st))"
    and 2: "\<forall>e \<in> set (event_history ?st). ev_id e \<le> event_id_counter ?st"
    by (simp_all add: log_inv_def)
  have 3: "event_id_counter ?st = int (length acts)"
    by (simp add: run_counter init_state_def)
  show ?thesis
    unfolding Let_def
    using 1 2 3 generate_frame_ids [of ts v ?st] generate_last [of ts v ?st]
      generate_counter [of ts v ?st] session_ids [of cur inputs]
    by blast
qed

theorem append_takes_next_counter_value_witness:
  "map ev_id (event_history (run [Open, Tick ''t'' 5, Tick ''u'' 6] init_state)) = [2, 3] \<and>
   event_id_counter (run [Open, Tick ''t'' 5, Tick ''u'' 6] init_state) = 3 \<and>
   frame_ids (fst (generate ''w'' 7 (run [Open, Tick ''t'' 5, Tick ''u'' 6] init_state))) = [4] \<and>
   map ev_id (event_history (snd (event_generator None [(''t'', 5), (''u'', 6)] init_state))) =
     [2, 3]"
proof -
  let ?as = "[Open, Tick ''t'' 5, Tick ''u'' 6]"
  note T = append_takes_next_counter_value [of ?as "''w''" 7 None "[(''t'', 5), (''u'', 6)]",
      unfolded Let_def]
  from T have c: "event_id_counter (run ?as init_state) = int (length ?as)" by blast
  then have B: "event_id_counter (run ?as init_state) = 3" by simp
  from T have "frame_ids (fst (generate ''w'' 7 (run ?as init_state))) =
      [event_id_counter (run ?as init_state) + 1]" by blast
  then have C: "frame_ids (fst (generate ''w'' 7 (run ?as init_state))) = [4]"
    by (simp only: B) simp
  from T have "map ev_id (event_history (snd (event_generator None [(''t'', 5), (''u'', 6)] init_state))) =
      drop (length [(''t'', 5::int), (''u'', 6)] - 100) [2 .. int (length [(''t'', 5::int), (''u'', 6)]) + 1]"
    by blast
  then have D: "map ev_id (event_history (snd (event_generator None [(''t'', 5), (''u'', 6)] init_state))) =
      [2, 3]"
    by (simp add: upto_rec1 [of 2 3] upto_rec1 [of 3 3])
  from run_open_two_ticks B C D show ?thesis by blast
qed

text \<open>
  The first event stored after a start from the empty history has id 2, not 1.
\<close>

theorem first_stored_id_counterexample:
  "event_history init_state = [] \<and>
   map ev_id (event_history (snd (event_generator None [(''t'', 7)] init_state))) = [2]"
proof -
  have "map ev_id (event_history (snd (event_generator None [(''t'', 7)] init_state))) =
      drop (length [(''t'', 7::int)] - 100) [2 .. int (length [(''t'', 7::int)]) + 1]"
    by (rule session_ids)
  then show ?thesis by (simp add: init_state_def)
qed

text \<open>
  Claim C3, as the code has it. After any actions of any sessions the history holds at
  most 100 events, and it is the last 100 of the events appended so far, in the order
  of their appends: an append to a full history drops the single oldest event. In a
  session that runs alone from the initial state, after \<open>n\<close> passes with \<open>n\<close> above 100
  the lowest stored id is \<open>n - 100 + 2\<close>; after 150 passes a replay from cursor 0 is 100
  events, with the ids 52 to 151.
\<close>

theorem history_bounded_fifo:
  "length (event_history (run acts init_state)) \<le> 100 \<and>
   event_history (run acts init_state) =
     drop (length (appended acts init_state) - 100) (appended acts init_state) \<and>
   event_history (snd (generate ts v (run acts init_state))) =
     (if length (event_history (run acts init_state)) < 100
      then event_history (run acts init_state)
      else tl (event_history (run acts init_state))) @
     [update_event ts v (event_id_counter (run acts init_state) + 1)] \<and>
   map ev_id (event_history (snd (event_generator cur inputs init_state))) =
     drop (length inputs - 100) [2 .. int (length inputs) + 1] \<and>
   (100 < length inputs \<longrightarrow>
      map ev_id (event_history (snd (event_generator cur inputs init_state))) =
        [int (length inputs) - 100 + 2 .. int (length inputs) + 1]) \<and>
   (length inputs = 150 \<longrightarrow>
      map ev_id (since 0 (event_history (snd (event_generator cur inputs init_state)))) =
        [52..151] \<and>
      length (since 0 (event_history (snd (event_generator cur inputs init_state)))) = 100)"
proof -
  have inv: "log_inv (run acts init_state)" by (rule log_inv_run [OF log_inv_init])
  then have len: "length (event_history (run acts init_state)) \<le> 100"
    by (simp add: log_inv_def)
  have low: "100 < length inputs \<longrightarrow>
      map ev_id (event_history (snd (event_generator cur inputs init_state))) =
        [int (length inputs) - 100 + 2 .. int (length inputs) + 1]"
    using session_lowest [of inputs cur] by simp
  show ?thesis
    using len run_history_init [of acts] generate_evicts_oldest [OF len, of ts v]
      session_ids [of cur inputs] low session_150 [of inputs cur]
    by blast
qed

theorem history_bounded_fifo_witness:
  "length (event_history (run [Open, Tick ''t'' 5, Tick ''u'' 6] init_state)) \<le> 100 \<and>
   map ev_id (since 0 (event_history
      (snd (event_generator None (replicate 150 (''t'', 1)) init_state)))) = [52..151] \<and>
   length (since 0 (event_history
      (snd (event_generator None (replicate 150 (''t'', 1)) init_state)))) = 100 \<and>
   map ev_id (event_history
      (snd (event_generator None (replicate 150 (''t'', 1)) init_state))) = [52..151]"
proof -
  have n: "length (replicate 150 (''t'', 1::int)) = 150" by simp
  note T = history_bounded_fifo [of "[Open, Tick ''t'' 5, Tick ''u'' 6]" _ _ None
      "replicate 150 (''t'', 1)"]
  from T have A: "length (event_history (run [Open, Tick ''t'' 5, Tick ''u'' 6] init_state)) \<le> 100"
    by blast
  from T n have B: "map ev_id (since 0 (event_history
      (snd (event_generator None (replicate 150 (''t'', 1)) init_state)))) = [52..151]"
    and C: "length (since 0 (event_history
      (snd (event_generator None (replicate 150 (''t'', 1)) init_state)))) = 100"
    by blast+
  from T n have "map ev_id (event_history
      (snd (event_generator None (replicate 150 (''t'', 1)) init_state))) =
      [int 150 - 100 + 2 .. int 150 + 1]"
    by (simp del: run.simps)
  then have D: "map ev_id (event_history
      (snd (event_generator None (replicate 150 (''t'', 1)) init_state))) = [52..151]"
    by simp
  from A B C D show ?thesis by blast
qed

text \<open>
  After 150 appends the replay from cursor 0 has the ids 52 to 151, not 51 to 150.
\<close>

theorem scenario_b_counterexample:
  "map ev_id (since 0 (event_history
      (snd (event_generator None (replicate 150 (''t'', 1)) init_state)))) = [52..151] \<and>
   map ev_id (since 0 (event_history
      (snd (event_generator None (replicate 150 (''t'', 1)) init_state)))) \<noteq> [51..150]"
proof -
  have A: "map ev_id (since 0 (event_history
      (snd (event_generator None (replicate 150 (''t'', 1)) init_state)))) = [52..151]"
    by (rule session_150) simp
  have "[52..151] \<noteq> [51..(150::int)]"
    by (simp add: upto_rec1 [of 52 151] upto_rec1 [of 51 150])
  with A show ?thesis by simp
qed

lemma session_frames:
  "fst (event_generator cur inputs st) =
     fst (replay cur st) @ fst (connected st) @ fst (live inputs (snd (connected st)))"
proof -
  have "replay cur st = (fst (replay cur st), st)"
    using replay_state [of cur st] by (metis prod.collapse)
  then show ?thesis
    by (simp add: event_generator_def case_prod_unfold replay_state Let_def)
qed

lemma since_95:
  assumes ids: "map ev_id h = [2..101]"
  shows "since 95 h = drop 94 h" and "map ev_id (drop 94 h) = [96..101]"
proof -
  have split: "[2..101::int] = [2..95] @ [96..101]"
    using upto_split2 [of 2 95 101] by simp
  have len: "length [2..95::int] = 94" by simp
  have "map ev_id (take 94 h) = take 94 (map ev_id h)"
    by (simp add: take_map)
  then have "map ev_id (take 94 h) = take 94 [2..101]"
    by (simp only: ids)
  then have t: "map ev_id (take 94 h) = [2..95]"
    using len by (simp only: split take_append) simp
  have "map ev_id (drop 94 h) = drop 94 (map ev_id h)"
    by (simp add: drop_map)
  then have "map ev_id (drop 94 h) = drop 94 [2..101]"
    by (simp only: ids)
  then show d: "map ev_id (drop 94 h) = [96..101]"
    by (simp add: upto_drop)
  have "\<forall>e \<in> set (take 94 h). \<not> 95 < ev_id e"
  proof
    fix e assume "e \<in> set (take 94 h)"
    then have "ev_id e \<in> set (map ev_id (take 94 h))" by simp
    then show "\<not> 95 < ev_id e" unfolding t by auto
  qed
  then have a: "filter (\<lambda>e. 95 < ev_id e) (take 94 h) = []"
    by (simp add: filter_empty_conv)
  have "\<forall>e \<in> set (drop 94 h). 95 < ev_id e"
  proof
    fix e assume "e \<in> set (drop 94 h)"
    then have "ev_id e \<in> set (map ev_id (drop 94 h))" by simp
    then show "95 < ev_id e" unfolding d by auto
  qed
  then have b: "filter (\<lambda>e. 95 < ev_id e) (drop 94 h) = drop 94 h"
    by (simp add: filter_id_conv)
  have "since 95 h = filter (\<lambda>e. 95 < ev_id e) (take 94 h @ drop 94 h)"
    by (simp add: since_def)
  then show "since 95 h = drop 94 h"
    by (simp only: filter_append a b append_Nil)
qed

lemma py_int_95: "py_int ''95'' = Some 95"
  by code_simp

lemma connected_frames:
  "fst (connected st) =
     [IdLine (event_id_counter st + 1), EventLine ''connected'',
      DataLine [(''message'', JStr ''Connected to SSE stream'')]]"
  by (simp add: connected_def Let_def)

lemma session_cursor_95:
  assumes ids: "map ev_id (event_history st) = [2..101]" and c: "event_id_counter st = 101"
  shows "fst (event_generator (Some ''95'') inputs st) =
           concat (map event_frames (drop 94 (event_history st))) @
           fst (connected st) @ fst (live inputs (snd (connected st)))"
    and "id_events (fst (connected st)) = [(102, ''connected'')]"
    and "frame_ids (fst (live inputs (snd (connected st)))) = [103 .. 102 + int (length inputs)]"
    and "frame_ids (fst (event_generator (Some ''95'') inputs st)) =
           [96..101] @ [102] @ [103 .. 102 + int (length inputs)]"
proof -
  show 1: "fst (event_generator (Some ''95'') inputs st) =
           concat (map event_frames (drop 94 (event_history st))) @
           fst (connected st) @ fst (live inputs (snd (connected st)))"
    by (simp only: session_frames replay_parsed [OF py_int_95] since_95(1) [OF ids] fst_conv)
  show 2: "id_events (fst (connected st)) = [(102, ''connected'')]"
    by (simp add: connected_frames c)
  show 3: "frame_ids (fst (live inputs (snd (connected st)))) = [103 .. 102 + int (length inputs)]"
    by (simp add: live_frame_ids connected_counter c)
  have "frame_ids (fst (connected st)) = [102]"
    by (simp add: connected_frames c)
  then show "frame_ids (fst (event_generator (Some ''95'') inputs st)) =
           [96..101] @ [102] @ [103 .. 102 + int (length inputs)]"
    by (simp only: 1 3 frame_ids_append frame_ids_replay since_95(2) [OF ids])
qed

lemma scenario_c_state_ids:
  "map ev_id (event_history scenario_c_state) = [2..101]"
  "event_id_counter scenario_c_state = 101"
proof -
  have "map ev_id (event_history scenario_c_state) =
      drop (length (replicate 100 (''t'', 0::int)) - 100)
        [2 .. int (length (replicate 100 (''t'', 0::int))) + 1]"
    unfolding scenario_c_state_def by (rule session_ids)
  then show "map ev_id (event_history scenario_c_state) = [2..101]" by simp
  show "event_id_counter scenario_c_state = 101"
    by (simp add: scenario_c_state_def session_state run_counter connected_counter
        ticks_def init_state_def)
qed

lemma generate_history_subset:
  "set (event_history (snd (generate ts v st))) \<subseteq>
     insert (update_event ts v (event_id_counter st + 1)) (set (event_history st))"
proof -
  have "set (tl (event_history st @ [update_event ts v (event_id_counter st + 1)])) \<subseteq>
      set (event_history st @ [update_event ts v (event_id_counter st + 1)])"
    by (cases "event_history st") auto
  then show ?thesis by (auto simp: generate_history Let_def)
qed

lemma first_id_never_stored:
  assumes "1 \<le> event_id_counter st" and "\<forall>e \<in> set (event_history st). 1 < ev_id e"
  shows "\<forall>e \<in> set (event_history (run acts st)). 1 < ev_id e"
  using assms
proof (induction acts arbitrary: st)
  case Nil
  then show ?case by simp
next
  case (Cons a acts)
  have c: "1 \<le> event_id_counter (act a st)"
    using Cons.prems(1) by (simp add: act_counter)
  have h: "\<forall>e \<in> set (event_history (act a st)). 1 < ev_id e"
  proof (cases a)
    case Open
    with Cons.prems(2) show ?thesis by (simp add: connected_history)
  next
    case (Tick ts v)
    have "set (event_history (snd (generate ts v st))) \<subseteq>
        insert (update_event ts v (event_id_counter st + 1)) (set (event_history st))"
      by (rule generate_history_subset)
    with Cons.prems Tick show ?thesis by auto
  qed
  from Cons.IH [OF c h] show ?case by simp
qed

lemma stored_events_are_updates:
  assumes "\<forall>e \<in> set (event_history st). ev_type e = ''update''"
  shows "\<forall>e \<in> set (event_history (run acts st)). ev_type e = ''update''"
  using assms
proof (induction acts arbitrary: st)
  case Nil
  then show ?case by simp
next
  case (Cons a acts)
  have h: "\<forall>e \<in> set (event_history (act a st)). ev_type e = ''update''"
  proof (cases a)
    case Open
    with Cons.prems show ?thesis by (simp add: connected_history)
  next
    case (Tick ts v)
    have "set (event_history (snd (generate ts v st))) \<subseteq>
        insert (update_event ts v (event_id_counter st + 1)) (set (event_history st))"
      by (rule generate_history_subset)
    moreover have "ev_type (update_event ts v (event_id_counter st + 1)) = ''update''"
      by (simp add: update_event_def)
    ultimately show ?thesis using Cons.prems Tick by auto
  qed
  from Cons.IH [OF h] show ?case by simp
qed

text \<open>
  Claim C7, as the code has it. The first connected event takes id 1, so no history
  that sessions reach from the initial state holds id 1: after 100 appends of a lone
  session the history holds the ids 2 to 101 and the counter stands at 101. A session
  opened there with cursor 95, no other session acting meanwhile, first yields the
  stored events beyond 95, ids 96 to 101 in ascending order, then the connected event,
  which takes the fresh id 102, and then its newly generated events, whose ids start
  at 103.
\<close>

theorem scenario_c_session:
  assumes "map ev_id (event_history st) = [2..101]" and "event_id_counter st = 101"
  shows "fst (event_generator (Some ''95'') inputs st) =
           concat (map event_frames (drop 94 (event_history st))) @
           fst (connected st) @ fst (live inputs (snd (connected st))) \<and>
         map ev_id (drop 94 (event_history st)) = [96..101] \<and>
         id_events (fst (connected st)) = [(102, ''connected'')] \<and>
         frame_ids (fst (live inputs (snd (connected st)))) =
           [103 .. 102 + int (length inputs)] \<and>
         frame_ids (fst (event_generator (Some ''95'') inputs st)) =
           [96..101] @ [102] @ [103 .. 102 + int (length inputs)] \<and>
         1 \<notin> set (map ev_id (event_history (run (Open # acts) init_state)))"
proof -
  have "\<forall>e \<in> set (event_history (run acts (act Open init_state))). 1 < ev_id e"
    by (rule first_id_never_stored)
      (simp_all add: connected_counter connected_history init_state_def)
  then have "1 \<notin> set (map ev_id (event_history (run (Open # acts) init_state)))"
    by auto
  with session_cursor_95 [OF assms] since_95(2) [OF assms(1)] show ?thesis by blast
qed

theorem scenario_c_session_witness:
  "map ev_id (event_history scenario_c_state) = [2..101] \<and>
   event_id_counter scenario_c_state = 101 \<and>
   frame_ids (fst (event_generator (Some ''95'') [(''t'', 0)] scenario_c_state)) =
     [96, 97, 98, 99, 100, 101, 102, 103]"
proof -
  from scenario_c_session [OF scenario_c_state_ids, of "[(''t'', 0)]"]
  have "frame_ids (fst (event_generator (Some ''95'') [(''t'', 0)] scenario_c_state)) =
      [96..101] @ [102] @ [103 .. 102 + int (length [(''t'', 0::int)])]"
    by blast
  moreover have "[96..101] @ [102] @ [103 .. 102 + int (length [(''t'', 0::int)])] =
      [96, 97, 98, 99, 100, 101, 102, 103::int]"
    by code_simp
  ultimately show ?thesis using scenario_c_state_ids by simp
qed

lemma id_events_replay:
  "id_events (concat (map event_frames es) @ rest) =
     map (\<lambda>e. (ev_id e, ev_type e)) es @ id_events rest"
  by (induction es) (simp_all add: event_frames_def)

lemma update_id_events:
  assumes "\<forall>e \<in> set es. ev_type e = ''update''"
  shows "map (\<lambda>e. (ev_id e, ev_type e)) es = map (\<lambda>i. (i, ''update'')) (map ev_id es)"
  using assms by (induction es) simp_all

text \<open>
  The state the claim starts from is not one the code reaches. At the state a lone
  session reaches by 100 appends, the session opened with cursor 95 replays the ids 96
  to 101, its connected event takes 102, and its first newly generated event has id
  103: the new ids do not start right after the last replayed id.
\<close>

theorem scenario_c_counterexample:
  "map ev_id (event_history scenario_c_state) = [2..101] \<and>
   event_id_counter scenario_c_state = 101 \<and>
   id_events (fst (event_generator (Some ''95'') [(''t'', 0)] scenario_c_state)) =
     [(96, ''update''), (97, ''update''), (98, ''update''), (99, ''update''), (100, ''update''),
      (101, ''update''), (102, ''connected''), (103, ''update'')]"
proof -
  let ?st = "scenario_c_state"
  have "\<forall>e \<in> set (event_history (run (Open # ticks (replicate 100 (''t'', 0))) init_state)).
      ev_type e = ''update''"
    by (rule stored_events_are_updates) (simp add: init_state_def)
  then have up: "\<forall>e \<in> set (drop 94 (event_history ?st)). ev_type e = ''update''"
    unfolding scenario_c_state_def session_state by (meson in_set_dropD)
  have e: "map (\<lambda>e. (ev_id e, ev_type e)) (drop 94 (event_history ?st)) =
      [(96, ''update''), (97, ''update''), (98, ''update''), (99, ''update''), (100, ''update''),
       (101, ''update'')]"
    unfolding update_id_events [OF up] since_95(2) [OF scenario_c_state_ids(1)]
    by (simp add: upto_rec1 [of 96 101] upto_rec1 [of 97 101] upto_rec1 [of 98 101]
        upto_rec1 [of 99 101] upto_rec1 [of 100 101])
  have l: "id_events (fst (connected ?st) @ fst (live [(''t'', 0)] (snd (connected ?st)))) =
      [(102, ''connected''), (103, ''update'')]"
    by (simp add: connected_frames tick_frames connected_counter scenario_c_state_ids
        split: prod.splits)
  have "id_events (fst (event_generator (Some ''95'') [(''t'', 0)] ?st)) =
      map (\<lambda>e. (ev_id e, ev_type e)) (drop 94 (event_history ?st)) @
      id_events (fst (connected ?st) @ fst (live [(''t'', 0)] (snd (connected ?st))))"
    by (simp only: session_cursor_95(1) [OF scenario_c_state_ids] id_events_replay)
  then show ?thesis
    using scenario_c_state_ids by (simp only: e l) simp
qed

lemma keepalive_tick:
  "keepalive_positions n (fst (tick ts v st) @ rest) =
     (if (event_id_counter st + 1) mod 15 = 0 then [Suc n] else []) @
     keepalive_positions (Suc n) rest"
  by (simp add: tick_frames)

lemma filter_upt_shift:
  "map (\<lambda>k. n + k) (filter P [Suc 0..<Suc (Suc m)]) =
     (if P (Suc 0) then [Suc n] else []) @
     map (\<lambda>k. Suc n + k) (filter (\<lambda>k. P (Suc k)) [Suc 0..<Suc m])"
proof -
  have up: "[Suc 0..<Suc (Suc m)] = Suc 0 # map Suc [Suc 0..<Suc m]"
    by (simp add: map_Suc_upt upt_conv_Cons del: upt_Suc)
  show ?thesis
    by (simp add: up filter_map comp_def del: upt_Suc)
qed

lemma keepalive_live:
  "keepalive_positions n (fst (live inputs st) @ rest) =
     map (\<lambda>k. n + k)
       (filter (\<lambda>k. (event_id_counter st + int k) mod 15 = 0) [1..<Suc (length inputs)]) @
     keepalive_positions (n + length inputs) rest"
proof (induction inputs arbitrary: n st)
  case Nil
  then show ?case by simp
next
  case (Cons x xs)
  obtain ts v where x: "x = (ts, v)" by (cases x)
  let ?c = "event_id_counter st"
  let ?st1 = "snd (tick ts v st)"
  have "keepalive_positions n (fst (live (x # xs) st) @ rest) =
      keepalive_positions n (fst (tick ts v st) @ (fst (live xs ?st1) @ rest))"
    unfolding x live_Cons by simp
  also have "\<dots> = (if (?c + 1) mod 15 = 0 then [Suc n] else []) @
      keepalive_positions (Suc n) (fst (live xs ?st1) @ rest)"
    by (rule keepalive_tick)
  also have "keepalive_positions (Suc n) (fst (live xs ?st1) @ rest) =
      map (\<lambda>k. Suc n + k)
        (filter (\<lambda>k. (?c + 1 + int k) mod 15 = 0) [1..<Suc (length xs)]) @
      keepalive_positions (Suc n + length xs) rest"
    by (simp only: Cons.IH tick_counter)
  finally show ?case
    using filter_upt_shift [of n "\<lambda>k. (?c + int k) mod 15 = 0" "length xs"]
    by (simp add: add.assoc add.commute add.left_commute del: upt_Suc)
qed

lemma no_keepalive_in_first: "filter (\<lambda>k. (1 + int k) mod 15 = 0) [1..<Suc 13] = []"
  by code_simp

lemma one_keepalive_in_second: "filter (\<lambda>k. (15 + int k) mod 15 = 0) [1..<Suc 16] = [15]"
  by code_simp

text \<open>
  Claim C9, where the code departs from it. The test for the keep-alive frame reads
  the counter that all sessions share, as it stands after the yields of the update
  event. A session opens on the initial state and
  completes 13 passes (ids 2 to 14); a second session opens and its connected event
  takes id 15; the first session completes 16 more passes (ids 16 to 31). Of its 29
  periodic events only one is followed by a comment frame, the 28th, with id 30.
\<close>

theorem keepalive_follows_shared_counter:
  "(CommentLine ''heartbeat'' \<in> set (fst (tick ts v st))) =
     ((event_id_counter st + 1) mod 15 = 0) \<and>
   (CommentLine ''heartbeat'' \<in> set (fst (loop_pass ts v between st))) =
     ((event_id_counter st + 1 + int (length between)) mod 15 = 0) \<and>
   (let (fa1, s1) = event_generator None (replicate 13 (''t'', 1)) init_state;
        (fb, s2) = event_generator None [] s1;
        (fa2, s3) = live (replicate 16 (''t'', 1)) s2
    in id_events fb = [(15, ''connected'')] \<and>
       length (frame_ids (fa1 @ fa2)) = 30 \<and>
       keepalive_positions 0 (fa1 @ fa2) = [28])"
proof -
  have G: "(CommentLine ''heartbeat'' \<in> set (fst (tick ts v st))) =
      ((event_id_counter st + 1) mod 15 = 0)"
    by (simp add: tick_frames)
  have "event_id_counter (run between (snd (generate ts v st))) =
      event_id_counter st + 1 + int (length between)"
    by (simp add: run_counter generate_counter)
  then have H: "(CommentLine ''heartbeat'' \<in> set (fst (loop_pass ts v between st))) =
      ((event_id_counter st + 1 + int (length between)) mod 15 = 0)"
    by (simp add: loop_pass_def heartbeat_def generate_def Let_def)
  let ?xs = "replicate 13 (''t'', 1::int)"
  let ?ys = "replicate 16 (''t'', 1::int)"
  let ?s0 = "snd (connected init_state)"
  let ?s1 = "snd (event_generator None ?xs init_state)"
  let ?s2 = "snd (event_generator None [] ?s1)"
  have c0: "event_id_counter ?s0 = 1"
    by (simp add: connected_def Let_def init_state_def)
  have c1: "event_id_counter ?s1 = 14"
    by (simp add: session_state run_counter connected_counter ticks_def init_state_def)
  have "?s2 = snd (connected ?s1)"
    by (simp only: session_state [of None "[]"] ticks_def list.map run.simps act.simps)
  then have c2: "event_id_counter ?s2 = 15"
    by (simp only: connected_counter c1)
  have fa1: "fst (event_generator None ?xs init_state) =
      fst (connected init_state) @ fst (live ?xs ?s0)"
    by (simp add: session_frames replay_def)
  have fb: "fst (event_generator None [] ?s1) = fst (connected ?s1)"
    by (simp add: session_frames replay_def)
  have A: "id_events (fst (event_generator None [] ?s1)) = [(15, ''connected'')]"
    by (simp add: fb connected_frames c1)
  have "keepalive_positions 0 (fst (event_generator None ?xs init_state) @ fst (live ?ys ?s2)) =
      keepalive_positions 0 (fst (live ?xs ?s0) @ fst (live ?ys ?s2))"
    by (simp add: fa1 connected_frames)
  also have "\<dots> = keepalive_positions 13 (fst (live ?ys ?s2) @ [])"
    using no_keepalive_in_first by (simp add: keepalive_live c0 del: upt_Suc)
  also have "\<dots> = [28]"
    using one_keepalive_in_second by (simp add: keepalive_live c2 del: upt_Suc append_Nil2)
  finally have B: "keepalive_positions 0
      (fst (event_generator None ?xs init_state) @ fst (live ?ys ?s2)) = [28]" .
  have C: "length (frame_ids (fst (event_generator None ?xs init_state) @ fst (live ?ys ?s2))) = 30"
    by (simp add: fa1 frame_ids_append live_frame_ids connected_frames)
  show ?thesis
    unfolding Let_def case_prod_unfold using G H A B C by blast
qed

section \<open>Claims about the connection manager\<close>

text \<open>
  Claim C4, where the code departs from it. The loop of \<^verbatim>\<open>broadcast\<close> iterates the live
  registry while it awaits each send. In Scenario D a new client connects while the
  pass awaits its first send: the next step of the iteration raises \<^verbatim>\<open>RuntimeError\<close>,
  which leaves \<^verbatim>\<open>broadcast\<close>. The four targets after the first get no attempt, and the
  connection whose transport is gone is neither noted nor unregistered. Undisturbed,
  the same broadcast returns, delivers to the four and unregisters the fifth.
\<close>

theorem broadcast_aborts_on_concurrent_connect:
  "fst (broadcast hello None [Connects ''f'' up] scenario_d) = Inl RuntimeError \<and>
   map_of (active_connections (snd (broadcast hello None [Connects ''f'' up] scenario_d))) ''a'' =
     Some (delivered hello up) \<and>
   map_of (active_connections (snd (broadcast hello None [Connects ''f'' up] scenario_d))) ''b'' =
     Some up \<and>
   map_of (active_connections (snd (broadcast hello None [Connects ''f'' up] scenario_d))) ''c'' =
     Some down \<and>
   map_of (active_connections (snd (broadcast hello None [Connects ''f'' up] scenario_d))) ''d'' =
     Some up \<and>
   map_of (active_connections (snd (broadcast hello None [Connects ''f'' up] scenario_d))) ''e'' =
     Some up \<and>
   map_of (rooms (snd (broadcast hello None [Connects ''f'' up] scenario_d))) ''lobby'' =
     Some [''a'', ''b'', ''c'', ''d'', ''e''] \<and>
   fst (broadcast hello None [] scenario_d) = Inr () \<and>
   map_of (active_connections (snd (broadcast hello None [] scenario_d))) ''b'' =
     Some (delivered hello up) \<and>
   map_of (active_connections (snd (broadcast hello None [] scenario_d))) ''c'' = None"
  by code_simp

text \<open>
  Claim C6, where the code departs from it. With \<^verbatim>\<open>exclude\<close> set to an id the pass
  makes no attempt on it: in Scenario D the excluded connection keeps its handle as it
  was, also when its transport is gone, where an attempt would have unregistered it.
  Without an exclusion the sender gets its own message. But when another client
  disconnects while the pass awaits its second send, the next step of the iteration
  raises \<^verbatim>\<open>RuntimeError\<close>: the fourth connection, present at call time and with a
  working transport, never gets the message.
\<close>

theorem broadcast_aborts_on_concurrent_disconnect:
  "map_of (active_connections (snd (broadcast hello (Some ''c'') [] scenario_d))) ''c'' =
     Some down \<and>
   map_of (active_connections (snd (broadcast hello (Some ''a'') [] scenario_d))) ''a'' =
     Some up \<and>
   map_of (active_connections (snd (broadcast hello None [] scenario_d))) ''a'' =
     Some (delivered hello up) \<and>
   fst (broadcast hello None [Quiet, Disconnects ''e''] scenario_d) = Inl RuntimeError \<and>
   map_of (active_connections
       (snd (broadcast hello None [Quiet, Disconnects ''e''] scenario_d))) ''a'' =
     Some (delivered hello up) \<and>
   map_of (active_connections
       (snd (broadcast hello None [Quiet, Disconnects ''e''] scenario_d))) ''b'' =
     Some (delivered hello up) \<and>
   map_of (active_connections
       (snd (broadcast hello None [Quiet, Disconnects ''e''] scenario_d))) ''d'' =
     Some up"
  by code_simp

text \<open>
  Claim C8, as the code has it. A personal send whose transport fails lets the
  exception of the transport leave the method; there is no result value. The method
  changes neither the ids of the registry nor any room. A send to an id that is not
  registered does nothing and returns.
\<close>

theorem personal_send_failure_raises:
  "(map_of (active_connections mgr) cid = Some ws \<and> \<not> ws_open ws \<longrightarrow>
      send_personal_message m cid mgr = (Inl SendError, mgr)) \<and>
   (map_of (active_connections mgr) cid = Some ws \<and> ws_open ws \<longrightarrow>
      send_personal_message m cid mgr =
        (Inr (), mgr\<lparr>active_connections := AList.update cid (delivered m ws) (active_connections mgr)\<rparr>)) \<and>
   (map_of (active_connections mgr) cid = None \<longrightarrow>
      send_personal_message m cid mgr = (Inr (), mgr)) \<and>
   map fst (active_connections (snd (send_personal_message m cid mgr))) =
     map fst (active_connections mgr) \<and>
   rooms (snd (send_personal_message m cid mgr)) = rooms mgr"
proof -
  have "map_of (active_connections mgr) cid = Some w \<Longrightarrow>
      map fst (AList.update cid w' (active_connections mgr)) = map fst (active_connections mgr)"
    for w w'
    by (simp add: update_keys map_of_eq_None_iff [symmetric] del: map_of_eq_None_iff)
  then show ?thesis
    by (auto simp: send_personal_message_def send_json_def split: option.splits)
qed

theorem personal_send_failure_raises_witness:
  "map_of (active_connections scenario_d) ''c'' = Some down \<and>
   send_personal_message hello ''c'' scenario_d = (Inl SendError, scenario_d) \<and>
   map_of (active_connections scenario_d) ''zz'' = None \<and>
   send_personal_message hello ''zz'' scenario_d = (Inr (), scenario_d) \<and>
   rooms (snd (send_personal_message hello ''a'' scenario_d)) = rooms scenario_d"
proof -
  have lc: "map_of (active_connections scenario_d) ''c'' = Some down"
    by (simp add: scenario_d_def)
  have lz: "map_of (active_connections scenario_d) ''zz'' = None"
    by (simp add: scenario_d_def)
  have nd: "\<not> ws_open down" by (simp add: down_def)
  from personal_send_failure_raises [of scenario_d "''c''" down hello] lc nd
  have A: "send_personal_message hello ''c'' scenario_d = (Inl SendError, scenario_d)"
    by blast
  from personal_send_failure_raises [of scenario_d "''zz''" _ hello] lz
  have B: "send_personal_message hello ''zz'' scenario_d = (Inr (), scenario_d)"
    by blast
  from personal_send_failure_raises [of scenario_d "''a''" _ hello]
  have C: "rooms (snd (send_personal_message hello ''a'' scenario_d)) = rooms scenario_d"
    by blast
  from lc A lz B C show ?thesis by blast
qed

text \<open>
  The personal send to the connection of Scenario D whose transport is gone raises.
\<close>

theorem personal_send_failure_counterexample:
  "map_of (active_connections scenario_d) ''c'' = Some down \<and>
   send_json down hello = Inl SendError \<and>
   fst (send_personal_message hello ''c'' scenario_d) = Inl SendError"
  by (simp add: send_personal_message_def send_json_def scenario_d_def down_def)

lemma room_pass_keys: "map fst (fst (room_pass m ex members conns)) = map fst conns"
proof (induction members arbitrary: conns)
  case Nil
  then show ?case by simp
next
  case (Cons cid rest)
  have upd: "map fst (AList.update cid w' conns) = map fst conns"
    if "map_of conns cid = Some w" for w w'
    using that by (simp add: update_keys map_of_eq_None_iff [symmetric] del: map_of_eq_None_iff)
  show ?case
    by (auto simp: Cons.IH upd send_json_def case_prod_unfold Let_def split: option.splits)
qed

lemma room_broadcast_keys:
  "map fst (active_connections (broadcast_to_room room m ex mgr)) =
     map fst (active_connections mgr)"
  by (simp add: broadcast_to_room_def room_pass_keys case_prod_unfold Let_def split: option.splits)

text \<open>
  Claim C2, where the code departs from it. A room broadcast discards the ids it noted
  as dead from the room, and never unregisters an id: the registry has the same ids
  after the pass as before. In Scenario D the connection whose send failed is out of
  the room and still in the registry, where the global broadcast removes it.
\<close>

theorem room_broadcast_keeps_dead_registered:
  "map fst (active_connections (broadcast_to_room room m ex mgr)) =
     map fst (active_connections mgr) \<and>
   map_of (rooms (broadcast_to_room ''lobby'' hello None scenario_d)) ''lobby'' =
     Some [''a'', ''b'', ''d'', ''e''] \<and>
   map_of (active_connections (broadcast_to_room ''lobby'' hello None scenario_d)) ''c'' =
     Some down \<and>
   map_of (active_connections (broadcast_to_room ''lobby'' hello None scenario_d)) ''a'' =
     Some (delivered hello up) \<and>
   map_of (active_connections (snd (broadcast hello None [] scenario_d))) ''c'' = None"
proof -
  have "map_of (rooms (broadcast_to_room ''lobby'' hello None scenario_d)) ''lobby'' =
      Some [''a'', ''b'', ''d'', ''e''] \<and>
    map_of (active_connections (broadcast_to_room ''lobby'' hello None scenario_d)) ''c'' =
      Some down \<and>
    map_of (active_connections (broadcast_to_room ''lobby'' hello None scenario_d)) ''a'' =
      Some (delivered hello up) \<and>
    map_of (active_connections (snd (broadcast hello None [] scenario_d))) ''c'' = None"
    by code_simp
  with room_broadcast_keys [of room m ex mgr] show ?thesis by blast
qed

end
